theory Spec2Isabelle
  imports Main "HOL-Library.AList" "HOL-Library.Char_ord" "HOL-Library.List_Lexorder"
    "HOL-Library.Product_Lexorder"
begin

section \<open>The interval timer \<open>ECtimes\<close> of SDE_CRA.py\<close>

text \<open>
  The class \<open>ECtimes\<close> keeps one attribute, the list \<open>lst_time\<close> of timing events.
  \<open>time_stamp\<close> appends the event \<open>[group, dt.now(), stst, text]\<close>; \<open>time_report\<close>
  groups the events by their first component, sorts each group, walks it in pairs and
  renders one line per group.

  Data. A timestamp (\<open>datetime\<close>) is its number of microseconds since a fixed instant, an
  \<open>int\<close>; the difference of two timestamps (\<open>timedelta\<close>) is an exact number of
  microseconds, again an \<open>int\<close>. Group names, phases and comments are byte strings,
  compared as Python 2 compares them: lexicographically by character code. An event
  \<open>[group, time, stst, text]\<close> is a 4-tuple, its tail \<open>stamp[1:]\<close> a triple, and Python orders
  such lists lexicographically, which is the order of nested pairs taken here.
\<close>

type_synonym entry = "int \<times> string \<times> string"

type_synonym stamp = "string \<times> entry"

record ECtimes =
  lst_time :: "stamp list"

text \<open>A Python \<open>dict\<close> with string keys, as an association list with distinct keys.\<close>

type_synonym 'v dict = "(string \<times> 'v) list"

datatype error = IndexError | KeyError

definition keys :: "'v dict \<Rightarrow> string list" where
  "keys d = map fst d"

definition getitem :: "'v dict \<Rightarrow> string \<Rightarrow> error + 'v" where
  "getitem d k = (case map_of d k of None \<Rightarrow> Inl KeyError | Some v \<Rightarrow> Inr v)"

definition setitem :: "'v dict \<Rightarrow> string \<Rightarrow> 'v \<Rightarrow> 'v dict" where
  "setitem d k v = AList.update k v d"

subsection \<open>\<open>__init__\<close> and \<open>time_stamp\<close>\<close>

definition init :: ECtimes where
  "init = \<lparr>lst_time = []\<rparr>"

text \<open>
  \<open>time_stamp\<close> reads the clock once (\<open>dt.now()\<close>, the argument \<open>now\<close>), replaces a phase
  that is neither \<open>'start'\<close> nor \<open>'stop'\<close> by \<open>'stst'\<close>, appends the event and returns 0.
\<close>

definition time_stamp ::
  "int \<Rightarrow> string \<Rightarrow> string \<Rightarrow> string \<Rightarrow> 'a ECtimes_scheme \<Rightarrow> int \<times> 'a ECtimes_scheme" where
  "time_stamp now grp stst text self =
     (let stst' = (if stst \<notin> set [''start'', ''stop''] then ''stst'' else stst)
      in (0, self\<lparr>lst_time := lst_time self @ [(grp, now, stst', text)]\<rparr>))"

subsection \<open>\<open>time_report\<close>\<close>

text \<open>First loop: \<open>dic_groups[stamp[0]]\<close> collects \<open>stamp[1:]\<close> of every event of the group.\<close>

definition group_step :: "entry list dict \<Rightarrow> stamp \<Rightarrow> error + entry list dict" where
  "group_step dic_groups stamp =
     (let dic1 = (if fst stamp \<notin> set (keys dic_groups)
                  then setitem dic_groups (fst stamp) [] else dic_groups)
      in case getitem dic1 (fst stamp) of
           Inl e \<Rightarrow> Inl e
         | Inr series \<Rightarrow> Inr (setitem dic1 (fst stamp) (series @ [snd stamp])))"

fun group_loop :: "stamp list \<Rightarrow> entry list dict \<Rightarrow> error + entry list dict" where
  "group_loop [] dic_groups = Inr dic_groups"
| "group_loop (stamp # rest) dic_groups =
     (case group_step dic_groups stamp of
        Inl e \<Rightarrow> Inl e
      | Inr dic1 \<Rightarrow> group_loop rest dic1)"

text \<open>
  The pair walk \<open>for i in range(len(series))[::2]\<close>: \<open>series[i+1]\<close> is read only when
  \<open>series[i][1] == 'start'\<close>, and raises \<open>IndexError\<close> when \<open>i\<close> is the last index.
\<close>

fun pair_walk :: "entry list \<Rightarrow> int \<Rightarrow> error + int" where
  "pair_walk [] deltatime = Inr deltatime"
| "pair_walk [a] deltatime =
     (if fst (snd a) = ''start'' then Inl IndexError else Inr deltatime)"
| "pair_walk (a # b # rest) deltatime =
     (if fst (snd a) = ''start'' then
        (if fst (snd b) = ''stop'' then pair_walk rest (deltatime + (fst b - fst a))
         else pair_walk rest deltatime)
      else pair_walk rest deltatime)"

text \<open>
  The line of one group. \<open>deltatime.total_seconds()\<close> is a float and \<open>format\<close> prints it
  with the float printer of the Python library; that printer is the parameter
  \<open>total_seconds\<close>, from microseconds to text.
\<close>

definition report_line :: "(int \<Rightarrow> string) \<Rightarrow> string \<Rightarrow> int \<Rightarrow> string" where
  "report_line total_seconds grp deltatime =
     ''group: '' @ grp @ '' = '' @ total_seconds deltatime @ '' seconds''"

text \<open>Second loop, over \<open>dic_groups.keys()\<close>: a group of odd length is passed over.\<close>

fun report_loop ::
  "(int \<Rightarrow> string) \<Rightarrow> entry list dict \<Rightarrow> string list \<Rightarrow> string dict \<Rightarrow> error + string dict" where
  "report_loop total_seconds dic_groups [] dic_report = Inr dic_report"
| "report_loop total_seconds dic_groups (grp # rest) dic_report =
     (case getitem dic_groups grp of
        Inl e \<Rightarrow> Inl e
      | Inr series \<Rightarrow>
          if length series mod 2 = 1 then report_loop total_seconds dic_groups rest dic_report
          else (case pair_walk (sort series) 0 of
                  Inl e \<Rightarrow> Inl e
                | Inr deltatime \<Rightarrow>
                    report_loop total_seconds dic_groups rest
                      (setitem dic_report grp (report_line total_seconds grp deltatime))))"

definition dic_report_of :: "(int \<Rightarrow> string) \<Rightarrow> stamp list \<Rightarrow> error + string dict" where
  "dic_report_of total_seconds lst =
     (case group_loop lst [] of
        Inl e \<Rightarrow> Inl e
      | Inr dic_groups \<Rightarrow> report_loop total_seconds dic_groups (keys dic_groups) [])"

text \<open>Third loop, over the sorted keys: \<open>str_report += "\n" + dic_report[key_r]\<close>.\<close>

fun join_loop :: "string dict \<Rightarrow> string list \<Rightarrow> string \<Rightarrow> error + string" where
  "join_loop dic_report [] str_report = Inr str_report"
| "join_loop dic_report (key_r # rest) str_report =
     (case getitem dic_report key_r of
        Inl e \<Rightarrow> Inl e
      | Inr line \<Rightarrow> join_loop dic_report rest (str_report @ ''\<newline>'' @ line))"

definition time_report ::
  "(int \<Rightarrow> string) \<Rightarrow> 'a ECtimes_scheme \<Rightarrow> (error + string) \<times> 'a ECtimes_scheme" where
  "time_report total_seconds self =
     (case dic_report_of total_seconds (lst_time self) of
        Inl e \<Rightarrow> (Inl e, self)
      | Inr dic_report \<Rightarrow> (join_loop dic_report (sort (keys dic_report)) [], self))"

subsection \<open>Printing a duration\<close>

text \<open>
  One printer for the parameter \<open>total_seconds\<close>, used where a report is evaluated on a
  concrete log: the decimal expansion of the microseconds as seconds, with at least one
  digit after the point and no further trailing zero. For a duration of zero and for one
  of 100 up to \<open>10\<^sup>1\<^sup>2 - 1\<close> microseconds in magnitude this is the text Python 2.7 gives for
  the float (\<open>5.0\<close>, \<open>0.25\<close>, \<open>-1.5\<close>); outside that range Python rounds to twelve
  significant digits or prints an exponent.
\<close>

definition digit_char :: "nat \<Rightarrow> char" where
  "digit_char d = ''0123456789'' ! d"

fun nat_str :: "nat \<Rightarrow> string" where
  "nat_str n = (if n < 10 then [digit_char n] else nat_str (n div 10) @ [digit_char (n mod 10)])"

declare nat_str.simps [simp del]

definition fraction_str :: "nat \<Rightarrow> string" where
  "fraction_str m =
     (let padded = map (\<lambda>p. digit_char (m div p mod 10)) [100000, 10000, 1000, 100, 10, 1];
          stripped = rev (dropWhile (\<lambda>c. c = CHR ''0'') (rev padded))
      in if stripped = [] then ''0'' else stripped)"

definition seconds_str :: "int \<Rightarrow> string" where
  "seconds_str us =
     (if us < 0 then ''-'' else []) @ nat_str (nat \<bar>us\<bar> div 1000000) @ ''.''
       @ fraction_str (nat \<bar>us\<bar> mod 1000000)"

subsection \<open>What the report is expected to hold\<close>

text \<open>
  The notions the properties are stated with. \<open>series_of lst g\<close> are the events recorded
  for the group \<open>g\<close>, in recording order and whatever their phase; \<open>pairs_of\<close> cuts a list
  into its consecutive pairs; a pair counts with \<open>stop - start\<close> when it is a
  \<open>start\<close> followed by a \<open>stop\<close>, and with nothing otherwise.
\<close>

definition series_of :: "stamp list \<Rightarrow> string \<Rightarrow> entry list" where
  "series_of lst g = map snd (filter (\<lambda>stamp. fst stamp = g) lst)"

definition labels :: "stamp list \<Rightarrow> string set" where
  "labels lst = fst ` set lst"

fun pairs_of :: "'a list \<Rightarrow> ('a \<times> 'a) list" where
  "pairs_of (a # b # rest) = (a, b) # pairs_of rest"
| "pairs_of [a] = []"
| "pairs_of [] = []"

definition start_stop :: "entry \<times> entry \<Rightarrow> bool" where
  "start_stop p = (fst (snd (fst p)) = ''start'' \<and> fst (snd (snd p)) = ''stop'')"

definition span :: "entry \<times> entry \<Rightarrow> int" where
  "span p = fst (snd p) - fst (fst p)"

definition pair_duration :: "entry \<times> entry \<Rightarrow> int" where
  "pair_duration p = (if start_stop p then span p else 0)"

definition label_total :: "stamp list \<Rightarrow> string \<Rightarrow> int" where
  "label_total lst g = sum_list (map pair_duration (pairs_of (sort (series_of lst g))))"

definition reported_labels :: "stamp list \<Rightarrow> string list" where
  "reported_labels lst =
     sort (remdups (filter (\<lambda>g. even (length (series_of lst g))) (map fst lst)))"

definition report_text :: "(int \<Rightarrow> string) \<Rightarrow> stamp list \<Rightarrow> string" where
  "report_text total_seconds lst =
     concat (map (\<lambda>g. ''\<newline>'' @ report_line total_seconds g (label_total lst g))
                 (reported_labels lst))"

definition start_stop_events :: "entry list \<Rightarrow> entry list" where
  "start_stop_events series =
     filter (\<lambda>e. fst (snd e) = ''start'' \<or> fst (snd e) = ''stop'') series"

definition phase_count :: "string \<Rightarrow> entry list \<Rightarrow> nat" where
  "phase_count p series = length (filter (\<lambda>e. fst (snd e) = p) series)"

subsection \<open>Recording a run\<close>

text \<open>
  A caller's sequence of \<open>time_stamp\<close> calls, each with the clock reading it meets:
  the recordings on which the report is evaluated below are built with it.
\<close>

fun record_all ::
  "(int \<times> string \<times> string \<times> string) list \<Rightarrow> 'a ECtimes_scheme \<Rightarrow> 'a ECtimes_scheme" where
  "record_all [] self = self"
| "record_all ((now, grp, stst, text) # rest) self =
     record_all rest (snd (time_stamp now grp stst text self))"

section \<open>Properties\<close>

subsection \<open>The dictionary operations\<close>

lemma getitem_Some: "map_of d k = Some v \<Longrightarrow> getitem d k = Inr v"
  by (simp add: getitem_def)

lemma map_of_setitem: "map_of (setitem d k v) = (map_of d)(k \<mapsto> v)"
  by (simp add: setitem_def update_conv')

lemma keys_setitem: "set (keys (setitem d k v)) = insert k (set (keys d))"
  by (simp add: setitem_def keys_def dom_update)

lemma distinct_setitem: "distinct (keys d) \<Longrightarrow> distinct (keys (setitem d k v))"
  by (simp add: setitem_def keys_def distinct_update)

lemma series_of_notin: "g \<notin> fst ` set lst \<Longrightarrow> series_of lst g = []"
  by (auto simp add: series_of_def filter_empty_conv)

lemma keys_map_of: "k \<in> set (keys d) \<longleftrightarrow> map_of d k \<noteq> None"
  by (simp add: keys_def map_of_eq_None_iff)

lemma group_step_ok:
  assumes "distinct (keys d)"
  shows "\<exists>d'. group_step d (g, e) = Inr d' \<and> distinct (keys d')
           \<and> set (keys d') = insert g (set (keys d))
           \<and> map_of d' = (map_of d)(g \<mapsto> (case map_of d g of None \<Rightarrow> [] | Some s \<Rightarrow> s) @ [e])"
proof (cases "map_of d g")
  case None
  then have "g \<notin> set (keys d)" by (simp add: keys_map_of)
  then show ?thesis using assms None
    by (simp add: group_step_def getitem_def map_of_setitem keys_setitem distinct_setitem)
next
  case (Some s)
  then have "g \<in> set (keys d)" by (simp add: keys_map_of)
  then show ?thesis using assms Some
    by (auto simp add: group_step_def getitem_def map_of_setitem keys_setitem distinct_setitem)
qed

lemma group_loop_ok:
  "distinct (keys d) \<Longrightarrow>
   \<exists>d'. group_loop lst d = Inr d' \<and> distinct (keys d')
      \<and> set (keys d') = set (keys d) \<union> fst ` set lst
      \<and> (\<forall>g. map_of d' g =
            (if g \<in> fst ` set lst
             then Some ((case map_of d g of None \<Rightarrow> [] | Some s \<Rightarrow> s) @ series_of lst g)
             else map_of d g))"
proof (induction lst arbitrary: d)
  case Nil
  then show ?case by (simp add: series_of_def)
next
  case (Cons st lst)
  obtain g e where st: "st = (g, e)" by (cases st)
  from group_step_ok[OF Cons.prems, of g e] obtain d1 where
    d1: "group_step d (g, e) = Inr d1" "distinct (keys d1)"
        "set (keys d1) = insert g (set (keys d))"
        "map_of d1 = (map_of d)(g \<mapsto> (case map_of d g of None \<Rightarrow> [] | Some s \<Rightarrow> s) @ [e])"
    by blast
  from Cons.IH[OF d1(2)] obtain d' where
    d': "group_loop lst d1 = Inr d'" "distinct (keys d')"
        "set (keys d') = set (keys d1) \<union> fst ` set lst"
        "\<And>h. map_of d' h =
            (if h \<in> fst ` set lst
             then Some ((case map_of d1 h of None \<Rightarrow> [] | Some s \<Rightarrow> s) @ series_of lst h)
             else map_of d1 h)"
    by blast
  have "group_loop (st # lst) d = Inr d'" using st d1(1) d'(1) by simp
  moreover have "set (keys d') = set (keys d) \<union> fst ` set (st # lst)"
    using d'(3) d1(3) st by auto
  moreover have "map_of d' h =
            (if h \<in> fst ` set (st # lst)
             then Some ((case map_of d h of None \<Rightarrow> [] | Some s \<Rightarrow> s) @ series_of (st # lst) h)
             else map_of d h)" for h
    using d'(4)[of h] d1(4) st by (auto simp add: series_of_def filter_empty_conv image_iff)
  ultimately show ?case using d'(2) by blast
qed


lemma pair_walk_even:
  "even (length series) \<Longrightarrow>
   pair_walk series deltatime = Inr (deltatime + sum_list (map pair_duration (pairs_of series)))"
proof (induction series deltatime rule: pair_walk.induct)
  case (1 deltatime)
  show ?case by simp
next
  case (2 a deltatime)
  then show ?case by simp
next
  case (3 a b rest deltatime)
  then show ?case by (simp add: pair_duration_def start_stop_def span_def)
qed

lemma report_loop_ok:
  assumes "distinct (keys dr)" and "\<forall>k \<in> set ks. map_of dg k \<noteq> None"
  shows "\<exists>dr'. report_loop ts dg ks dr = Inr dr' \<and> distinct (keys dr')
           \<and> (\<forall>g. map_of dr' g =
                 (if g \<in> set ks \<and> even (length (the (map_of dg g)))
                  then Some (report_line ts g
                         (sum_list (map pair_duration (pairs_of (sort (the (map_of dg g)))))))
                  else map_of dr g))"
  using assms
proof (induction ks arbitrary: dr)
  case Nil
  then show ?case by simp
next
  case (Cons k ks)
  from Cons.prems(2) obtain series where series: "map_of dg k = Some series" by auto
  have rest: "\<forall>k \<in> set ks. map_of dg k \<noteq> None" using Cons.prems(2) by simp
  show ?case
  proof (cases "even (length series)")
    case False
    from Cons.IH[OF Cons.prems(1) rest] obtain dr' where
      dr': "report_loop ts dg ks dr = Inr dr'" "distinct (keys dr')"
        "\<And>g. map_of dr' g =
                 (if g \<in> set ks \<and> even (length (the (map_of dg g)))
                  then Some (report_line ts g
                         (sum_list (map pair_duration (pairs_of (sort (the (map_of dg g)))))))
                  else map_of dr g)"
      by blast
    have "report_loop ts dg (k # ks) dr = Inr dr'"
      using series False dr'(1) by (simp add: getitem_Some odd_iff_mod_2_eq_one)
    moreover have "map_of dr' g =
                 (if g \<in> set (k # ks) \<and> even (length (the (map_of dg g)))
                  then Some (report_line ts g
                         (sum_list (map pair_duration (pairs_of (sort (the (map_of dg g)))))))
                  else map_of dr g)" for g
      using dr'(3)[of g] series False by auto
    ultimately show ?thesis using dr'(2) by blast
  next
    case True
    let ?line = "report_line ts k (sum_list (map pair_duration (pairs_of (sort series))))"
    have walk: "pair_walk (sort series) 0 = Inr (sum_list (map pair_duration (pairs_of (sort series))))"
      using pair_walk_even[of "sort series" 0] True by simp
    have "distinct (keys (setitem dr k ?line))" using Cons.prems(1) by (rule distinct_setitem)
    from Cons.IH[OF this rest] obtain dr' where
      dr': "report_loop ts dg ks (setitem dr k ?line) = Inr dr'" "distinct (keys dr')"
        "\<And>g. map_of dr' g =
                 (if g \<in> set ks \<and> even (length (the (map_of dg g)))
                  then Some (report_line ts g
                         (sum_list (map pair_duration (pairs_of (sort (the (map_of dg g)))))))
                  else map_of (setitem dr k ?line) g)"
      by blast
    have "report_loop ts dg (k # ks) dr = Inr dr'"
      using series True dr'(1) walk by (simp add: getitem_Some even_iff_mod_2_eq_zero)
    moreover have "map_of dr' g =
                 (if g \<in> set (k # ks) \<and> even (length (the (map_of dg g)))
                  then Some (report_line ts g
                         (sum_list (map pair_duration (pairs_of (sort (the (map_of dg g)))))))
                  else map_of dr g)" for g
      using dr'(3)[of g] series True by (auto simp add: map_of_setitem)
    ultimately show ?thesis using dr'(2) by blast
  qed
qed

lemma join_loop_ok:
  "\<forall>k \<in> set ks. map_of dr k \<noteq> None \<Longrightarrow>
   join_loop dr ks acc = Inr (acc @ concat (map (\<lambda>k. ''\<newline>'' @ the (map_of dr k)) ks))"
proof (induction ks arbitrary: acc)
  case Nil
  show ?case by simp
next
  case (Cons k ks)
  then obtain line where "map_of dr k = Some line" by auto
  then show ?case using Cons by (simp add: getitem_Some)
qed


lemma dic_report_of_ok:
  "\<exists>dr. dic_report_of ts lst = Inr dr \<and> distinct (keys dr)
      \<and> (\<forall>g. map_of dr g =
            (if g \<in> fst ` set lst \<and> even (length (series_of lst g))
             then Some (report_line ts g (label_total lst g)) else None))"
proof -
  have "distinct (keys ([] :: entry list dict))" by (simp add: keys_def)
  from group_loop_ok[OF this, of lst] obtain dg where
    dg: "group_loop lst [] = Inr dg" "distinct (keys dg)"
        "set (keys dg) = fst ` set lst"
        "\<And>g. map_of dg g = (if g \<in> fst ` set lst then Some (series_of lst g) else None)"
    by (auto simp add: keys_def)
  have k: "\<forall>k \<in> set (keys dg). map_of dg k \<noteq> None" by (simp add: keys_map_of)
  have "distinct (keys ([] :: string dict))" by (simp add: keys_def)
  from report_loop_ok[OF this k, of ts] obtain dr where
    dr: "report_loop ts dg (keys dg) [] = Inr dr" "distinct (keys dr)"
        "\<And>g. map_of dr g =
                 (if g \<in> set (keys dg) \<and> even (length (the (map_of dg g)))
                  then Some (report_line ts g
                         (sum_list (map pair_duration (pairs_of (sort (the (map_of dg g)))))))
                  else map_of [] g)"
    by blast
  have "dic_report_of ts lst = Inr dr" using dg(1) dr(1) by (simp add: dic_report_of_def)
  moreover have "map_of dr g =
            (if g \<in> fst ` set lst \<and> even (length (series_of lst g))
             then Some (report_line ts g (label_total lst g)) else None)" for g
    using dr(3)[of g] dg(3) dg(4)[of g] by (simp add: label_total_def)
  ultimately show ?thesis using dr(2) by blast
qed

lemma reported_labels_set:
  "set (reported_labels lst) = {g \<in> fst ` set lst. even (length (series_of lst g))}"
  by (auto simp add: reported_labels_def)

lemma reported_labels_sorted: "sorted (reported_labels lst)"
  by (simp add: reported_labels_def)

lemma reported_labels_distinct: "distinct (reported_labels lst)"
  by (simp add: reported_labels_def)

lemma time_report_eq:
  "time_report ts self =
     (Inr (concat (map (\<lambda>g. ''\<newline>'' @ report_line ts g (label_total (lst_time self) g))
                       (reported_labels (lst_time self)))), self)"
proof -
  let ?lst = "lst_time self"
  from dic_report_of_ok[of ts ?lst] obtain dr where
    dr: "dic_report_of ts ?lst = Inr dr" "distinct (keys dr)"
        "\<And>g. map_of dr g =
            (if g \<in> fst ` set ?lst \<and> even (length (series_of ?lst g))
             then Some (report_line ts g (label_total ?lst g)) else None)"
    by blast
  have set_eq: "set (keys dr) = set (reported_labels ?lst)"
  proof -
    have "g \<in> set (keys dr) \<longleftrightarrow> g \<in> set (reported_labels ?lst)" for g
      using dr(3)[of g] by (simp add: keys_map_of reported_labels_set)
    then show ?thesis by blast
  qed
  have "sort (keys dr) = reported_labels ?lst"
  proof (rule sorted_distinct_set_unique)
    show "sorted (sort (keys dr))" by simp
    show "distinct (sort (keys dr))" using dr(2) by simp
    show "sorted (reported_labels ?lst)" by (rule reported_labels_sorted)
    show "distinct (reported_labels ?lst)" by (rule reported_labels_distinct)
    show "set (sort (keys dr)) = set (reported_labels ?lst)" using set_eq by simp
  qed
  then have ks: "sort (keys dr) = reported_labels ?lst" .
  have dom: "\<forall>k \<in> set (reported_labels ?lst). map_of dr k \<noteq> None"
    using dr(3) by (simp add: reported_labels_set)
  have lines: "map (\<lambda>k. ''\<newline>'' @ the (map_of dr k)) (reported_labels ?lst)
      = map (\<lambda>g. ''\<newline>'' @ report_line ts g (label_total ?lst g)) (reported_labels ?lst)"
    by (rule map_cong[OF refl]) (simp add: dr(3) reported_labels_set)
  have "join_loop dr (sort (keys dr)) []
      = Inr (concat (map (\<lambda>k. ''\<newline>'' @ the (map_of dr k)) (reported_labels ?lst)))"
    using join_loop_ok[OF dom, of "[]"] ks by simp
  then have "join_loop dr (sort (keys dr)) []
      = Inr (concat (map (\<lambda>g. ''\<newline>'' @ report_line ts g (label_total ?lst g))
                         (reported_labels ?lst)))"
    by (simp only: lines)
  then show ?thesis
    using dr(1) by (simp add: time_report_def)
qed

lemmas report_eval =
  time_report_def dic_report_of_def group_step_def keys_def getitem_def setitem_def
  report_line_def seconds_str_def fraction_str_def nat_str.simps digit_char_def
  time_stamp_def init_def

lemmas log_eval = report_eval labels_def series_of_def start_stop_events_def phase_count_def

lemma sum_pair_duration:
  "sum_list (map pair_duration ps) = sum_list (map span (filter start_stop ps))"
  by (induction ps) (simp_all add: pair_duration_def)

lemma label_total_filter:
  "label_total lst g = sum_list (map span (filter start_stop (pairs_of (sort (series_of lst g)))))"
  by (simp add: label_total_def sum_pair_duration)

lemma time_report_text: "fst (time_report ts self) = Inr (report_text ts (lst_time self))"
  by (simp add: time_report_eq report_text_def)

lemma dic_report_of_line:
  "\<exists>dr. dic_report_of ts lst = Inr dr
      \<and> map_of dr g = (if g \<in> labels lst \<and> even (length (series_of lst g))
                       then Some (report_line ts g (label_total lst g)) else None)"
  using dic_report_of_ok[of ts lst] unfolding labels_def by blast

lemma pairs_of_set: "(a, b) \<in> set (pairs_of xs) \<Longrightarrow> a \<in> set xs \<and> b \<in> set xs"
  by (induction xs rule: pairs_of.induct) auto

lemma no_start_total_zero:
  assumes "\<forall>e \<in> set (series_of lst g). fst (snd e) \<noteq> ''start''"
  shows "label_total lst g = 0"
proof -
  have "filter start_stop (pairs_of (sort (series_of lst g))) = []"
    unfolding filter_empty_conv
  proof
    fix p assume p: "p \<in> set (pairs_of (sort (series_of lst g)))"
    obtain a b where ab: "p = (a, b)" by (cases p)
    with p pairs_of_set[of a b "sort (series_of lst g)"] have "a \<in> set (series_of lst g)" by simp
    with assms ab show "\<not> start_stop p" by (simp add: start_stop_def)
  qed
  then show ?thesis by (simp add: label_total_filter)
qed

lemma series_of_filter: "series_of (filter (\<lambda>stamp. fst stamp = b) lst) b = series_of lst b"
  by (simp add: series_of_def)

lemma labels_filter:
  "b \<in> fst ` set (filter (\<lambda>stamp. fst stamp = b) lst) \<longleftrightarrow> b \<in> fst ` set lst"
  by force

subsection \<open>Recording an event\<close>

text \<open>
  C6. Whatever the group, the phase and the comment, \<open>time_stamp\<close> returns (the value 0)
  with exactly one event appended to the log, carrying the clock reading; the events
  recorded before are kept as they were. A phase other than \<open>'start'\<close> and \<open>'stop'\<close> is
  stored as the marker \<open>'stst'\<close> and not refused, and no other part of the timer
  changes.
\<close>

theorem time_stamp_appends_one_event:
  "time_stamp now grp stst text self =
     (0, self\<lparr>lst_time := lst_time self @
           [(grp, now, if stst = ''start'' \<or> stst = ''stop'' then stst else ''stst'', text)]\<rparr>)
   \<and> ECtimes.more (snd (time_stamp now grp stst text self)) = ECtimes.more self
   \<and> length (lst_time (snd (time_stamp now grp stst text self))) = length (lst_time self) + 1"
  by (auto simp add: time_stamp_def)

subsection \<open>The report as a whole\<close>

text \<open>
  C8. \<open>time_report\<close> leaves the timer, and so its log \<open>lst_time\<close>, as it found it (the
  groups it sorts are lists of its own, built from slices of the events), and a second
  call with no \<open>time_stamp\<close> in between returns the same text.
\<close>

theorem time_report_read_only_idempotent:
  "snd (time_report ts self) = self
   \<and> lst_time (snd (time_report ts self)) = lst_time self
   \<and> fst (time_report ts (snd (time_report ts self))) = fst (time_report ts self)"
  by (simp add: time_report_eq)

text \<open>
  C7. The text is the sequence of the lines of the reported groups, and these groups come
  in strictly ascending order of their names, whatever the order of the events in the log:
  the reported groups are those with an even number of events.
\<close>

theorem report_lines_sorted_by_label:
  "fst (time_report ts self) =
     Inr (concat (map (\<lambda>g. ''\<newline>'' @ report_line ts g (label_total (lst_time self) g))
                      (reported_labels (lst_time self))))
   \<and> sorted_wrt (<) (reported_labels (lst_time self))
   \<and> set (reported_labels (lst_time self)) =
       {g \<in> labels (lst_time self). even (length (series_of (lst_time self) g))}"
  by (simp add: time_report_eq strict_sorted_iff reported_labels_sorted reported_labels_distinct
        reported_labels_set labels_def)

text \<open>
  C9. Label isolation: the line of a group \<open>b\<close>, and the duration in it, are those of the
  log reduced to the events of \<open>b\<close>; events of other groups recorded in between change
  nothing.
\<close>

theorem label_isolation:
  "\<exists>dr dr'. dic_report_of ts lst = Inr dr
      \<and> dic_report_of ts (filter (\<lambda>stamp. fst stamp = b) lst) = Inr dr'
      \<and> map_of dr b = map_of dr' b
      \<and> label_total lst b = label_total (filter (\<lambda>stamp. fst stamp = b) lst) b"
proof -
  let ?only = "filter (\<lambda>stamp. fst stamp = b) lst"
  from dic_report_of_ok[of ts lst] obtain dr where
    dr: "dic_report_of ts lst = Inr dr"
        "\<And>g. map_of dr g =
            (if g \<in> fst ` set lst \<and> even (length (series_of lst g))
             then Some (report_line ts g (label_total lst g)) else None)"
    by blast
  from dic_report_of_ok[of ts ?only] obtain dr' where
    dr': "dic_report_of ts ?only = Inr dr'"
        "\<And>g. map_of dr' g =
            (if g \<in> fst ` set ?only \<and> even (length (series_of ?only g))
             then Some (report_line ts g (label_total ?only g)) else None)"
    by blast
  have tot: "label_total lst b = label_total ?only b"
    by (simp add: label_total_def series_of_filter)
  have "map_of dr b = map_of dr' b"
    unfolding dr(2)[of b] dr'(2)[of b] series_of_filter labels_filter tot ..
  then show ?thesis using dr(1) dr'(1) tot by blast
qed

subsection \<open>The pair walk\<close>

text \<open>
  C5. In a group with an even number of events the pair walk goes through the consecutive
  pairs of the sorted group without raising: a pair that is not a \<open>start\<close> followed by a
  \<open>stop\<close> adds nothing, every pair that is one adds \<open>stop - start\<close>, and the line of
  the group carries the sum over exactly these pairs.
\<close>

theorem malformed_pairs_contribute_nothing:
  assumes "g \<in> labels (lst_time self)" and "even (length (series_of (lst_time self) g))"
  shows "pair_walk (sort (series_of (lst_time self) g)) 0 =
           Inr (sum_list (map span (filter start_stop (pairs_of (sort (series_of (lst_time self) g))))))
         \<and> (\<exists>dr. dic_report_of ts (lst_time self) = Inr dr
               \<and> map_of dr g = Some (report_line ts g
                    (sum_list (map span (filter start_stop
                       (pairs_of (sort (series_of (lst_time self) g))))))))
         \<and> (\<exists>text. fst (time_report ts self) = Inr text)"
proof -
  have "even (length (sort (series_of (lst_time self) g)))" using assms(2) by simp
  from pair_walk_even[OF this, of 0]
  have walk: "pair_walk (sort (series_of (lst_time self) g)) 0 =
      Inr (sum_list (map span (filter start_stop (pairs_of (sort (series_of (lst_time self) g))))))"
    by (simp add: sum_pair_duration)
  from dic_report_of_line[of ts "lst_time self" g] assms
  have line: "\<exists>dr. dic_report_of ts (lst_time self) = Inr dr
               \<and> map_of dr g = Some (report_line ts g
                    (sum_list (map span (filter start_stop
                       (pairs_of (sort (series_of (lst_time self) g)))))))"
    by (simp add: label_total_filter)
  have "\<exists>text. fst (time_report ts self) = Inr text" by (simp add: time_report_text)
  with walk line show ?thesis by blast
qed

text \<open>
  The theorem at a group whose first pair is a \<open>stop\<close> followed by a \<open>start\<close> and
  whose second pair is well formed: the total is the two seconds of the second pair.
\<close>

theorem malformed_pairs_contribute_nothing_witness:
  "''x'' \<in> labels (lst_time (record_all
       [(0, ''x'', ''stop'', ''''), (1000000, ''x'', ''start'', ''''),
        (2000000, ''x'', ''start'', ''''), (4000000, ''x'', ''stop'', '''')] init))
   \<and> even (length (series_of (lst_time (record_all
       [(0, ''x'', ''stop'', ''''), (1000000, ''x'', ''start'', ''''),
        (2000000, ''x'', ''start'', ''''), (4000000, ''x'', ''stop'', '''')] init)) ''x''))
   \<and> pair_walk (sort (series_of (lst_time (record_all
       [(0, ''x'', ''stop'', ''''), (1000000, ''x'', ''start'', ''''),
        (2000000, ''x'', ''start'', ''''), (4000000, ''x'', ''stop'', '''')] init)) ''x'')) 0
       = Inr 2000000"
proof -
  let ?self = "record_all
       [(0, ''x'', ''stop'', ''''), (1000000, ''x'', ''start'', ''''),
        (2000000, ''x'', ''start'', ''''), (4000000, ''x'', ''stop'', '''')] init"
  have h1: "''x'' \<in> labels (lst_time ?self)" by (simp add: log_eval)
  have h2: "even (length (series_of (lst_time ?self) ''x''))" by (simp add: log_eval)
  have v: "sum_list (map span (filter start_stop (pairs_of (sort (series_of (lst_time ?self) ''x'')))))
      = 2000000"
    by (simp add: log_eval start_stop_def span_def)
  from malformed_pairs_contribute_nothing[OF h1 h2, of seconds_str] v h1 h2
  show ?thesis by simp
qed

subsection \<open>Groups of odd length and groups of markers\<close>

text \<open>
  C3, as the code has it. The parity test is on the length of the group, and the group
  holds every event of the label, those stored with the marker \<open>'stst'\<close> as well. A label
  with an odd number of events, of whatever phase, has no line in the report and nothing
  is raised.
\<close>

theorem odd_group_has_no_line:
  assumes "odd (length (series_of (lst_time self) g))"
  shows "fst (time_report ts self) = Inr (report_text ts (lst_time self))
         \<and> g \<notin> set (reported_labels (lst_time self))
         \<and> (\<exists>dr. dic_report_of ts (lst_time self) = Inr dr \<and> map_of dr g = None)"
proof -
  have "g \<notin> set (reported_labels (lst_time self))"
    using assms by (simp add: reported_labels_set)
  moreover have "\<exists>dr. dic_report_of ts (lst_time self) = Inr dr \<and> map_of dr g = None"
    using dic_report_of_line[of ts "lst_time self" g] assms by simp
  ultimately show ?thesis using time_report_text[of ts self] by blast
qed

text \<open>
  Three events for one label, two starts and then one stop: no line, the text is empty.
\<close>

theorem odd_group_has_no_line_witness:
  "odd (length (series_of (lst_time (record_all
       [(0, ''x'', ''start'', ''''), (1000000, ''x'', ''start'', ''''),
        (2000000, ''x'', ''stop'', '''')] init)) ''x''))
   \<and> ''x'' \<notin> set (reported_labels (lst_time (record_all
       [(0, ''x'', ''start'', ''''), (1000000, ''x'', ''start'', ''''),
        (2000000, ''x'', ''stop'', '''')] init)))
   \<and> fst (time_report seconds_str (record_all
       [(0, ''x'', ''start'', ''''), (1000000, ''x'', ''start'', ''''),
        (2000000, ''x'', ''stop'', '''')] init)) = Inr ''''"
proof -
  let ?self = "record_all
       [(0, ''x'', ''start'', ''''), (1000000, ''x'', ''start'', ''''),
        (2000000, ''x'', ''stop'', '''')] init"
  have h: "odd (length (series_of (lst_time ?self) ''x''))" by (simp add: log_eval)
  have v: "fst (time_report seconds_str ?self) = Inr ''''" by (simp add: log_eval)
  from odd_group_has_no_line[OF h, of seconds_str] h v show ?thesis by blast
qed

text \<open>
  C3 as stated counts the \<open>start\<close> and \<open>stop\<close> events only. One \<open>start\<close> and one
  event of another phase are an odd number of them (one), and the label is reported, with
  a duration of zero.
\<close>

theorem odd_start_stop_count_counterexample:
  "odd (length (start_stop_events (series_of (lst_time (record_all
       [(0, ''x'', ''start'', ''''), (3000000, ''x'', ''pause'', '''')] init)) ''x'')))
   \<and> fst (time_report seconds_str (record_all
       [(0, ''x'', ''start'', ''''), (3000000, ''x'', ''pause'', '''')] init))
       = Inr ''\<newline>group: x = 0.0 seconds''"
  by (simp add: log_eval)

text \<open>
  C4, as the code has it. A label whose events all have a phase other than \<open>'start'\<close>
  and \<open>'stop'\<close> has no line when the number of its events is odd, and a line with the
  duration zero when it is even; in both cases the report is produced without an error.
\<close>

theorem sentinel_only_group:
  assumes "g \<in> labels (lst_time self)"
    and "\<forall>e \<in> set (series_of (lst_time self) g). fst (snd e) \<noteq> ''start'' \<and> fst (snd e) \<noteq> ''stop''"
  shows "(\<exists>dr. dic_report_of ts (lst_time self) = Inr dr
            \<and> map_of dr g = (if even (length (series_of (lst_time self) g))
                             then Some (report_line ts g 0) else None))
         \<and> (g \<in> set (reported_labels (lst_time self))
              \<longleftrightarrow> even (length (series_of (lst_time self) g)))
         \<and> fst (time_report ts self) = Inr (report_text ts (lst_time self))"
proof -
  have "label_total (lst_time self) g = 0" using assms(2) by (simp add: no_start_total_zero)
  then have "\<exists>dr. dic_report_of ts (lst_time self) = Inr dr
            \<and> map_of dr g = (if even (length (series_of (lst_time self) g))
                             then Some (report_line ts g 0) else None)"
    using dic_report_of_line[of ts "lst_time self" g] assms(1) by auto
  moreover have "g \<in> set (reported_labels (lst_time self))
              \<longleftrightarrow> even (length (series_of (lst_time self) g))"
    using assms(1) by (simp add: reported_labels_set labels_def)
  ultimately show ?thesis using time_report_text[of ts self] by blast
qed

text \<open>
  Two events recorded with the phases \<open>pause\<close> and \<open>resume\<close>: the label is among the
  reported ones.
\<close>

theorem sentinel_only_group_witness:
  "''x'' \<in> labels (lst_time (record_all
       [(0, ''x'', ''pause'', ''''), (1000000, ''x'', ''resume'', '''')] init))
   \<and> start_stop_events (series_of (lst_time (record_all
          [(0, ''x'', ''pause'', ''''), (1000000, ''x'', ''resume'', '''')] init)) ''x'') = []
   \<and> ''x'' \<in> set (reported_labels (lst_time (record_all
       [(0, ''x'', ''pause'', ''''), (1000000, ''x'', ''resume'', '''')] init)))"
proof -
  let ?self = "record_all
       [(0, ''x'', ''pause'', ''''), (1000000, ''x'', ''resume'', '''')] init"
  have h1: "''x'' \<in> labels (lst_time ?self)" by (simp add: log_eval)
  have h2: "\<forall>e \<in> set (series_of (lst_time ?self) ''x'').
              fst (snd e) \<noteq> ''start'' \<and> fst (snd e) \<noteq> ''stop''"
    by (simp add: log_eval)
  have e: "even (length (series_of (lst_time ?self) ''x''))" by (simp add: log_eval)
  have n: "start_stop_events (series_of (lst_time ?self) ''x'') = []" by (simp add: log_eval)
  from sentinel_only_group[OF h1 h2, of seconds_str] e h1 n
  show ?thesis by simp
qed

text \<open>
  C4 as stated has no line for such a label; the two events above give the line
  \<open>group: x = 0.0 seconds\<close>.
\<close>

theorem sentinel_only_group_counterexample:
  "start_stop_events (series_of (lst_time (record_all
       [(0, ''x'', ''pause'', ''''), (1000000, ''x'', ''resume'', '''')] init)) ''x'') = []
   \<and> fst (time_report seconds_str (record_all
       [(0, ''x'', ''pause'', ''''), (1000000, ''x'', ''resume'', '''')] init))
       = Inr ''\<newline>group: x = 0.0 seconds''"
  by (simp add: log_eval)

end
